theory Spec2Isabelle
  imports Complex_Main "HOL-Library.Log_Nat"
begin

section \<open>Python strings and the character classes of \<open>re\<close>\<close>

text \<open>
  A Python \<open>str\<close> is a sequence of Unicode code points, so a string is a list of
  naturals here: \<open>len\<close> and every index of the source count code points.
\<close>

type_synonym uchar = nat
type_synonym ustr = "uchar list"

text \<open>
  \<open>\d\<close> in a \<open>str\<close> pattern matches every character with the Unicode decimal
  property, not only \<open>0\<close> to \<open>9\<close>, and \<open>float\<close> reads those characters as
  the digits they stand for. Every such character lies in a run of ten consecutive code
  points holding the values 0 to 9; \<open>dec_starts\<close> lists the first code point of each
  run (Unicode 14, the table of CPython 3.11).
\<close>

definition dec_starts :: "nat list" where
  "dec_starts =
    [48, 1632, 1776, 1984, 2406, 2534, 2662, 2790, 2918, 3046, 3174, 3302, 3430, 3558,
     3664, 3792, 3872, 4160, 4240, 6112, 6160, 6470, 6608, 6784, 6800, 6992, 7088, 7232,
     7248, 42528, 43216, 43264, 43472, 43504, 43600, 44016, 65296, 66720, 68912, 69734,
     69872, 69942, 70096, 70384, 70736, 70864, 71248, 71360, 71472, 71904, 72016, 72784,
     73040, 73120, 92768, 92864, 93008, 120782, 120792, 120802, 120812, 120822, 123200,
     123632, 125264, 130032]"

definition decimal :: "uchar \<Rightarrow> nat option" where
  "decimal c = map_option (\<lambda>s. c - s) (find (\<lambda>s. s \<le> c \<and> c < s + 10) dec_starts)"

definition is_digit :: "uchar \<Rightarrow> bool" where
  "is_digit c = (decimal c \<noteq> None)"

text \<open>\<open>\s\<close> in a \<open>str\<close> pattern: the characters for which \<open>str.isspace\<close> holds.\<close>

definition is_space :: "uchar \<Rightarrow> bool" where
  "is_space c =
    ((9 \<le> c \<and> c \<le> 13) \<or> (28 \<le> c \<and> c \<le> 32) \<or> c = 133 \<or> c = 160 \<or> c = 5760
      \<or> (8192 \<le> c \<and> c \<le> 8202) \<or> c = 8232 \<or> c = 8233 \<or> c = 8239 \<or> c = 8287
      \<or> c = 12288)"

text \<open>The separators of the class \<open>[\. ]\<close>: period and space.\<close>

definition is_sep :: "uchar \<Rightarrow> bool" where
  "is_sep c = (c = 46 \<or> c = 32)"

text \<open>The class \<open>[-\<dots>]\<close>: hyphen-minus and en dash (U+2013).\<close>

definition is_dash :: "uchar \<Rightarrow> bool" where
  "is_dash c = (c = 45 \<or> c = 8211)"

text \<open>
  A literal letter under \<open>re.IGNORECASE\<close> matches its upper and lower case and the
  characters \<open>re\<close> treats as case variants of them (for some Cyrillic letters the
  historic forms U+1C82 to U+1C85). \<open>ci\<close> takes the list of code points one literal
  matches.
\<close>

definition ci :: "uchar list \<Rightarrow> uchar \<Rightarrow> bool" where
  "ci vs c = (c \<in> set vs)"

definition euro :: uchar where
  "euro = 8364"


section \<open>Backtracking regular expressions\<close>

text \<open>
  The constructs the two patterns of the source use. \<open>Alt\<close> prefers its left branch,
  \<open>Star\<close> is greedy, \<open>NegLA\<close> is the negative lookahead \<open>(?!...)\<close> and
  \<open>Grp\<close> a capturing group.
\<close>

datatype rx =
    Cls "uchar \<Rightarrow> bool"
  | Eps
  | Seq rx rx
  | Alt rx rx
  | Star rx
  | NegLA rx
  | Grp string rx

type_synonym captures = "(string \<times> ustr) list"
type_synonym rmatch = "ustr \<times> captures \<times> ustr"

text \<open>
  \<open>ms r s\<close> lists every way \<open>r\<close> matches a prefix of \<open>s\<close>, as (matched text,
  groups captured, remaining text), in the order the backtracking matcher of \<open>re\<close>
  tries them: the head of the list is the match \<open>re\<close> reports. An iteration of
  \<open>Star\<close> that consumes nothing ends the repetition (no pattern here has one).
\<close>

function (sequential) ms :: "rx \<Rightarrow> ustr \<Rightarrow> rmatch list" where
  "ms (Cls P) [] = []"
| "ms (Cls P) (c # s) = (if P c then [([c], [], s)] else [])"
| "ms Eps s = [([], [], s)]"
| "ms (Seq a b) s =
     concat (map (\<lambda>(m1, g1, r1). map (\<lambda>(m2, g2, r2). (m1 @ m2, g1 @ g2, r2)) (ms b r1))
       (ms a s))"
| "ms (Alt a b) s = ms a s @ ms b s"
| "ms (Star a) s =
     concat (map (\<lambda>(m1, g1, r1).
         if length r1 < length s
         then map (\<lambda>(m2, g2, r2). (m1 @ m2, g1 @ g2, r2)) (ms (Star a) r1)
         else [])
       (ms a s)) @ [([], [], s)]"
| "ms (NegLA a) s = (if ms a s = [] then [([], [], s)] else [])"
| "ms (Grp n a) s = map (\<lambda>(m, g, r). (m, g @ [(n, m)], r)) (ms a s)"
  by pat_completeness auto
termination
  by (relation "measures [\<lambda>(r, s). size r, \<lambda>(r, s). length s]") auto

text \<open>\<open>x?\<close>, \<open>x+\<close>, \<open>x{3}\<close> and \<open>x{1,3}\<close>, all greedy.\<close>

definition Opt :: "rx \<Rightarrow> rx" where
  "Opt a = Alt a Eps"

definition Plus :: "rx \<Rightarrow> rx" where
  "Plus a = Seq a (Star a)"

definition Rep3 :: "rx \<Rightarrow> rx" where
  "Rep3 a = Seq a (Seq a a)"

definition Rep1to3 :: "rx \<Rightarrow> rx" where
  "Rep1to3 a = Seq a (Opt (Seq a (Opt a)))"

text \<open>A literal string: the sequence of its characters' classes.\<close>

fun Lits :: "(uchar \<Rightarrow> bool) list \<Rightarrow> rx" where
  "Lits [] = Eps"
| "Lits (P # Ps) = Seq (Cls P) (Lits Ps)"

text \<open>
  \<open>re.search\<close>: the match at the leftmost position that has one, with the text
  before it.
\<close>

fun re_search :: "rx \<Rightarrow> ustr \<Rightarrow> (ustr \<times> rmatch) option" where
  "re_search r [] = (case ms r [] of [] \<Rightarrow> None | x # _ \<Rightarrow> Some ([], x))"
| "re_search r (c # s) =
     (case ms r (c # s) of
        x # _ \<Rightarrow> Some ([], x)
      | [] \<Rightarrow> map_option (\<lambda>(b, x). (c # b, x)) (re_search r s))"

text \<open>\<open>match.group(name)\<close>: \<open>None\<close> when the group took no part in the match.\<close>

definition group :: "captures \<Rightarrow> string \<Rightarrow> ustr option" where
  "group g n = map_of (rev g) n"

text \<open>
  \<open>finditer\<close>: the matches from left to right, each search starting where the
  previous match ended. The price pattern never matches the empty string; the scan
  stops at a match that leaves the text no shorter, a case that does not arise.
\<close>

function finditer :: "rx \<Rightarrow> ustr \<Rightarrow> (ustr \<times> captures) list" where
  "finditer r s =
     (case re_search r s of
        None \<Rightarrow> []
      | Some (b, m, g, rest) \<Rightarrow>
          if length rest < length s then (m, g) # finditer r rest
          else [(m, g)])"
  by pat_completeness auto
termination
  by (relation "measure (\<lambda>(r, s). length s)") auto


section \<open>The two patterns of the source\<close>

text \<open>
  The value pattern of \<open>apply_markup\<close>:
  \<^verbatim>\<open>(\d{1,3}(?:[\. ]\d{3})*(?!\d)|\d+)\<close>
  Its only group encloses the whole pattern, so \<open>val_match.group(1)\<close> is the
  matched text.
\<close>

definition sep_group :: rx where
  "sep_group = Seq (Cls is_sep) (Rep3 (Cls is_digit))"

definition val_rx :: rx where
  "val_rx =
     Alt (Seq (Rep1to3 (Cls is_digit)) (Seq (Star sep_group) (NegLA (Cls is_digit))))
         (Plus (Cls is_digit))"

text \<open>
  The price pattern of \<open>extract_prices_from_page\<close>, compiled with
  \<open>re.IGNORECASE\<close>:
  \<^verbatim>\<open>(?P<prefix>Stoimost\s*[-\<dots>]?\s*)?(?P<value>\d{1,3}(?:[\. ]\d{3})*|\d+)\s*(?P<currency>E)\<close>
  where \<open>Stoimost\<close> stands for the nine Cyrillic letters U+0421 U+0442 U+043E U+0438
  U+043C U+043E U+0441 U+0442 U+044C and \<open>E\<close> for the euro sign U+20AC.
\<close>

definition label_rx :: rx where
  "label_rx =
     Lits [ci [1057, 1089, 7299], ci [1058, 1090, 7300, 7301], ci [1054, 1086, 7298],
           ci [1048, 1080], ci [1052, 1084], ci [1054, 1086, 7298],
           ci [1057, 1089, 7299], ci [1058, 1090, 7300, 7301], ci [1068, 1100]]"

definition price_pattern :: rx where
  "price_pattern =
     Seq (Opt (Grp ''prefix''
            (Seq label_rx (Seq (Star (Cls is_space)) (Seq (Opt (Cls is_dash)) (Star (Cls is_space)))))))
       (Seq (Grp ''value''
              (Alt (Seq (Rep1to3 (Cls is_digit)) (Star sep_group)) (Plus (Cls is_digit))))
          (Seq (Star (Cls is_space)) (Grp ''currency'' (Cls (ci [euro])))))"


section \<open>Numbers: \<open>float\<close>, \<open>round\<close> and the format specification\<close>

datatype py_error = ValueError | OverflowError | IndexError

text \<open>
  A Python \<open>float\<close> is an IEEE 754 binary64 value. A finite one is given by the
  rational number it denotes (the sign of a zero is dropped: no operation here tells the
  two zeros apart).
\<close>

datatype double = Finite rat | PInf | NInf | NaN

text \<open>Rounding to the nearest integer, a tie going to the even neighbour.\<close>

definition round_half_even :: "rat \<Rightarrow> int" where
  "round_half_even q =
     (let f = \<lfloor>q\<rfloor>; d = q - of_int f
      in if d < 1 / 2 then f else if 1 / 2 < d then f + 1 else if even f then f else f + 1)"

text \<open>The exponent of a positive rational: the \<open>e\<close> with \<open>2^e \<le> q < 2^(e+1)\<close>.\<close>

definition ilog2 :: "rat \<Rightarrow> int" where
  "ilog2 q =
     (let (a, b) = quotient_of q; d = bitlen a - bitlen b
      in if 2 powi d \<le> q then d else d - 1)"

text \<open>
  The binary64 value nearest to a rational, ties to even: 53 significant bits, the
  exponent not below that of the subnormal numbers, and infinity from \<open>2^1024\<close> on.
  Every arithmetic result and every conversion of a decimal string is rounded this way.
\<close>

definition round_double :: "rat \<Rightarrow> double" where
  "round_double q =
     (if q = 0 then Finite 0
      else
        let e = max (ilog2 \<bar>q\<bar>) (- 1022);
            ulp = 2 powi (e - 52);
            r = of_int (round_half_even (q / ulp)) * ulp
        in if 2 ^ 1024 \<le> \<bar>r\<bar> then (if 0 < q then PInf else NInf) else Finite r)"

text \<open>The product of two floats.\<close>

fun fmul :: "double \<Rightarrow> double \<Rightarrow> double" where
  "fmul NaN y = NaN"
| "fmul x NaN = NaN"
| "fmul (Finite a) (Finite b) = round_double (a * b)"
| "fmul (Finite a) PInf = (if a = 0 then NaN else if 0 < a then PInf else NInf)"
| "fmul (Finite a) NInf = (if a = 0 then NaN else if 0 < a then NInf else PInf)"
| "fmul PInf (Finite b) = (if b = 0 then NaN else if 0 < b then PInf else NInf)"
| "fmul NInf (Finite b) = (if b = 0 then NaN else if 0 < b then NInf else PInf)"
| "fmul PInf PInf = PInf"
| "fmul PInf NInf = NInf"
| "fmul NInf PInf = NInf"
| "fmul NInf NInf = PInf"

text \<open>
  \<open>round(x)\<close> of a float, with no second argument: the nearest integer, ties to
  even; \<open>OverflowError\<close> for an infinity and \<open>ValueError\<close> for a NaN.
\<close>

fun py_round :: "double \<Rightarrow> py_error + int" where
  "py_round (Finite q) = Inr (round_half_even q)"
| "py_round PInf = Inl OverflowError"
| "py_round NInf = Inl OverflowError"
| "py_round NaN = Inl ValueError"

text \<open>
  \<open>float(s)\<close> on the strings that reach it here, runs of decimal digits: the digits
  are read in base ten and the number is rounded to a float. Any other string is
  reported as \<open>ValueError\<close>.
\<close>

definition digit_val :: "uchar \<Rightarrow> nat" where
  "digit_val c = (case decimal c of Some d \<Rightarrow> d | None \<Rightarrow> 0)"

definition digits_value :: "ustr \<Rightarrow> nat" where
  "digits_value s = foldl (\<lambda>a c. 10 * a + digit_val c) 0 s"

definition py_float :: "ustr \<Rightarrow> py_error + double" where
  "py_float s =
     (if s \<noteq> [] \<and> list_all is_digit s then Inr (round_double (of_nat (digits_value s)))
      else Inl ValueError)"

text \<open>A float literal of the source, such as \<open>1.05\<close>, given as a fraction.\<close>

definition float_literal :: "rat \<Rightarrow> double" where
  "float_literal q = round_double q"

text \<open>
  \<open>f"{v:,}"\<close> for an integer: its decimal digits with a comma before every group of
  three counted from the right, after a minus sign when it is negative.
\<close>

function to_dec :: "nat \<Rightarrow> ustr" where
  "to_dec n = (if n < 10 then [48 + n] else to_dec (n div 10) @ [48 + n mod 10])"
  by pat_completeness auto
termination
  by (relation "measure id") auto

definition pad3 :: "nat \<Rightarrow> ustr" where
  "pad3 n = [48 + n div 100 mod 10, 48 + n div 10 mod 10, 48 + n mod 10]"

function group_thousands :: "nat \<Rightarrow> ustr" where
  "group_thousands n =
     (if n < 1000 then to_dec n else group_thousands (n div 1000) @ [44] @ pad3 (n mod 1000))"
  by pat_completeness auto
termination
  by (relation "measure id") auto

definition format_comma :: "int \<Rightarrow> ustr" where
  "format_comma v = (if v < 0 then 45 # group_thousands (nat (- v)) else group_thousands (nat v))"

text \<open>\<open>s.replace(old, new)\<close> where \<open>old\<close> is a single character.\<close>

definition replace_char :: "uchar \<Rightarrow> ustr \<Rightarrow> ustr \<Rightarrow> ustr" where
  "replace_char old new s = concat (map (\<lambda>c. if c = old then new else [c]) s)"


section \<open>\<open>apply_markup\<close>\<close>

text \<open>
  The body of the \<open>try\<close> up to \<open>final_val\<close>:
  \<open>int(round(float(raw_val) * multiplier))\<close>.
\<close>

definition final_val :: "ustr \<Rightarrow> double \<Rightarrow> py_error + int" where
  "final_val raw_val multiplier =
     (case py_float raw_val of
        Inl e \<Rightarrow> Inl e
      | Inr x \<Rightarrow> py_round (fmul x multiplier))"

text \<open>
  \<open>except ValueError\<close> returns the text; any other exception leaves the function.
\<close>

definition apply_markup :: "ustr \<Rightarrow> ustr \<Rightarrow> ustr \<Rightarrow> double \<Rightarrow> py_error + ustr" where
  "apply_markup text original_prefix original_currency multiplier =
     (case re_search val_rx text of
        None \<Rightarrow> Inr text
      | Some (before, m, g, rest) \<Rightarrow>
          (let raw_val = replace_char 46 [] (replace_char 32 [] m)
           in case final_val raw_val multiplier of
                Inl ValueError \<Rightarrow> Inr text
              | Inl e \<Rightarrow> Inl e
              | Inr v \<Rightarrow>
                  Inr (original_prefix @ replace_char 44 [32] (format_comma v) @ [32]
                         @ original_currency)))"


section \<open>Spans, occurrences and the scan of a page\<close>

type_synonym rect = "real \<times> real \<times> real \<times> real"
type_synonym point = "real \<times> real"

text \<open>A span as \<open>page.get_text("dict")\<close> reports it (the keys the source reads).\<close>

record span =
  span_text :: ustr
  span_bbox :: rect
  span_origin :: point
  span_size :: real
  span_color :: int

text \<open>The dictionary \<open>process_span\<close> builds for one match.\<close>

record item =
  page :: nat
  original_text :: ustr
  prefix :: ustr
  val :: ustr
  currency :: ustr
  bbox :: rect
  origin :: point
  font_size :: real
  color :: int

text \<open>
  \<open>match.group(name) or ""\<close>. The groups \<open>value\<close> and \<open>currency\<close> take part
  in every match of the price pattern, so the same reading serves for them.
\<close>

definition group_text :: "captures \<Rightarrow> string \<Rightarrow> ustr" where
  "group_text g n = (case group g n of Some v \<Rightarrow> v | None \<Rightarrow> [])"

definition process_span :: "span \<Rightarrow> nat \<Rightarrow> rx \<Rightarrow> item list" where
  "process_span sp page_num pat =
     map (\<lambda>(m, g).
           \<lparr>page = page_num + 1, original_text = m, prefix = group_text g ''prefix'',
            val = group_text g ''value'', currency = group_text g ''currency'',
            bbox = span_bbox sp, origin = span_origin sp, font_size = span_size sp,
            color = span_color sp\<rparr>)
       (finditer pat (span_text sp))"

text \<open>A block of the page dictionary has lines of spans, or (an image block) none.\<close>

datatype block = TextBlock "span list list" | OtherBlock

definition extract_prices_from_page :: "block list \<Rightarrow> nat \<Rightarrow> item list" where
  "extract_prices_from_page pg page_num =
     concat (map (\<lambda>b. case b of
                         TextBlock lines \<Rightarrow>
                           concat (map (\<lambda>line.
                             concat (map (\<lambda>sp. process_span sp page_num price_pattern) line))
                             lines)
                       | OtherBlock \<Rightarrow> [])
               pg)"


section \<open>\<open>main\<close>: the table, the edits and the two passes\<close>

text \<open>The extraction phase: the pages in order, numbered from 0.\<close>

definition extraction :: "block list list \<Rightarrow> item list" where
  "extraction doc = concat (map (\<lambda>(i, pg). extract_prices_from_page pg i) (enumerate 0 doc))"

record row =
  ID :: nat
  Page :: nat
  Original_Text :: ustr
  New_Text :: ustr

text \<open>
  The loop that fills \<open>data_for_df\<close>, \<open>idx\<close> counting from 0. An exception of
  \<open>apply_markup\<close> ends \<open>main\<close>.
\<close>

fun build_rows :: "nat \<Rightarrow> item list \<Rightarrow> double \<Rightarrow> py_error + row list" where
  "build_rows idx [] m = Inr []"
| "build_rows idx (it # its) m =
     (case apply_markup (original_text it) (prefix it) (currency it) m of
        Inl e \<Rightarrow> Inl e
      | Inr new_price_text \<Rightarrow>
          (case build_rows (Suc idx) its m of
             Inl e \<Rightarrow> Inl e
           | Inr rs \<Rightarrow>
               Inr (\<lparr>ID = idx, Page = page it, Original_Text = original_text it,
                     New_Text = new_price_text\<rparr> # rs)))"

definition data_for_df :: "item list \<Rightarrow> double \<Rightarrow> py_error + row list" where
  "data_for_df all_prices markup_multiplier = build_rows 0 all_prices markup_multiplier"

text \<open>
  \<open>st.data_editor\<close> with every column but \<open>New Text\<close> disabled and the rows
  fixed: the user's edits give some rows, by position, a new text.
\<close>

definition data_editor :: "row list \<Rightarrow> (nat \<rightharpoonup> ustr) \<Rightarrow> row list" where
  "data_editor rows edits =
     map (\<lambda>(i, r). case edits i of None \<Rightarrow> r | Some t \<Rightarrow> r\<lparr>New_Text := t\<rparr>)
       (enumerate 0 rows)"

text \<open>
  What the generation phase adds to a page. The copy \<open>doc_new\<close> is a list of pages,
  each the list of the operations applied to it so far, oldest first.
\<close>

datatype draw =
    DrawRect rect "real \<times> real \<times> real" "real \<times> real \<times> real" bool
  | InsertFont string
  | InsertText point ustr real string int

type_synonym document = "draw list list"

text \<open>\<open>all_prices[i]\<close> for an index that is not negative.\<close>

definition item_at :: "item list \<Rightarrow> nat \<Rightarrow> py_error + item" where
  "item_at all_prices i = (if i < length all_prices then Inr (all_prices ! i) else Inl IndexError)"

text \<open>
  \<open>doc_new[i]\<close>: the document raises \<open>IndexError\<close> for an index from its
  page count on and counts a negative index from the end. The result is the position of
  the page in the list.
\<close>

definition get_page :: "document \<Rightarrow> int \<Rightarrow> py_error + nat" where
  "get_page doc i =
     (let n = int (length doc)
      in if n \<le> i \<or> n = 0 then Inl IndexError else Inr (nat (i mod n)))"

text \<open>Operations applied to the page at position \<open>k\<close>, on top of what it holds.\<close>

definition draw_on :: "document \<Rightarrow> nat \<Rightarrow> draw list \<Rightarrow> document" where
  "draw_on doc k ops = doc[k := doc ! k @ ops]"

definition white :: "real \<times> real \<times> real" where
  "white = (1, 1, 1)"

text \<open>Pass 1: the whiteout of every row whose text changed.\<close>

fun whiteout_pass :: "item list \<Rightarrow> row list \<Rightarrow> document \<Rightarrow> py_error + document" where
  "whiteout_pass all_prices [] doc = Inr doc"
| "whiteout_pass all_prices (r # rs) doc =
     (case item_at all_prices (ID r) of
        Inl e \<Rightarrow> Inl e
      | Inr original_item \<Rightarrow>
          if New_Text r \<noteq> original_text original_item
          then (case get_page doc (int (page original_item) - 1) of
                  Inl e \<Rightarrow> Inl e
                | Inr k \<Rightarrow>
                    whiteout_pass all_prices rs
                      (draw_on doc k [DrawRect (bbox original_item) white white True]))
          else whiteout_pass all_prices rs doc)"

text \<open>
  Pass 2: the new text of every row whose text changed. \<open>page.get_fonts()\<close> is a list
  of tuples, which never holds the string \<open>font_name\<close>, so \<open>insert_font\<close> is
  called for every such row; \<open>font_file\<close> tells whether it can load
  \<open>DejaVuSans.ttf\<close>, and when it cannot the built-in \<open>helv\<close> is used.
\<close>

definition insert_ops :: "item \<Rightarrow> ustr \<Rightarrow> bool \<Rightarrow> draw list" where
  "insert_ops original_item display_text font_file =
     (let x0 = fst (bbox original_item); y = snd (origin original_item)
      in if font_file
         then [InsertFont ''dejavu'',
               InsertText (x0, y) display_text (font_size original_item) ''dejavu'' 0]
         else [InsertText (x0, y) display_text (font_size original_item) ''helv'' 0])"

fun insert_pass :: "item list \<Rightarrow> row list \<Rightarrow> bool \<Rightarrow> document \<Rightarrow> py_error + document" where
  "insert_pass all_prices [] font_file doc = Inr doc"
| "insert_pass all_prices (r # rs) font_file doc =
     (case item_at all_prices (ID r) of
        Inl e \<Rightarrow> Inl e
      | Inr original_item \<Rightarrow>
          if New_Text r \<noteq> original_text original_item
          then (case get_page doc (int (page original_item) - 1) of
                  Inl e \<Rightarrow> Inl e
                | Inr k \<Rightarrow>
                    (case apply_markup (New_Text r) (prefix original_item)
                            (currency original_item) (Finite 1) of
                       Inl e \<Rightarrow> Inl e
                     | Inr display_text \<Rightarrow>
                         insert_pass all_prices rs font_file
                           (draw_on doc k (insert_ops original_item display_text font_file))))
          else insert_pass all_prices rs font_file doc)"

text \<open>The generation phase: both loops over \<open>edited_rows\<close>, one after the other.\<close>

definition generate :: "item list \<Rightarrow> row list \<Rightarrow> bool \<Rightarrow> document \<Rightarrow> py_error + document" where
  "generate all_prices edited_rows font_file doc_new =
     (case whiteout_pass all_prices edited_rows doc_new of
        Inl e \<Rightarrow> Inl e
      | Inr doc' \<Rightarrow> insert_pass all_prices edited_rows font_file doc')"


section \<open>Notions used to state the properties\<close>

text \<open>A whiteout is a rectangle drawn by pass 1.\<close>

definition is_whiteout :: "draw \<Rightarrow> bool" where
  "is_whiteout d = (case d of DrawRect _ _ _ _ \<Rightarrow> True | _ \<Rightarrow> False)"

text \<open>
  Two occurrences on one line whose boxes overlap, and the table after the user has
  replaced both texts (by \<open>N/A\<close> and \<open>TBD\<close>).
\<close>

definition occ_a :: item where
  "occ_a = \<lparr>page = 1, original_text = [49, 50, 8364], prefix = [], val = [49, 50],
     currency = [8364], bbox = (10, 20, 60, 32), origin = (10, 30), font_size = 11,
     color = 0\<rparr>"

definition occ_b :: item where
  "occ_b = \<lparr>page = 1, original_text = [55, 8364], prefix = [], val = [55],
     currency = [8364], bbox = (50, 20, 90, 32), origin = (50, 30), font_size = 11,
     color = 0\<rparr>"

definition rows_ab :: "row list" where
  "rows_ab =
     [\<lparr>ID = 0, Page = 1, Original_Text = [49, 50, 8364], New_Text = [78, 47, 65]\<rparr>,
      \<lparr>ID = 1, Page = 1, Original_Text = [55, 8364], New_Text = [84, 66, 68]\<rparr>]"

text \<open>
  The rows that take effect on the page at position \<open>j\<close>, in the order of the table,
  each with its occurrence: the rows whose text differs from the occurrence's and whose
  occurrence lies on that page. \<open>whiteouts\<close> and \<open>insertions\<close> are what pass 1 and
  pass 2 draw for them.
\<close>

definition edited_on :: "item list \<Rightarrow> document \<Rightarrow> nat \<Rightarrow> row list \<Rightarrow> (row \<times> item) list" where
  "edited_on all_prices doc j rs =
     concat (map (\<lambda>r. case item_at all_prices (ID r) of
                          Inl e \<Rightarrow> []
                        | Inr it \<Rightarrow>
                            if New_Text r \<noteq> original_text it
                               \<and> get_page doc (int (page it) - 1) = Inr j
                            then [(r, it)] else [])
               rs)"

definition whiteouts :: "item list \<Rightarrow> document \<Rightarrow> nat \<Rightarrow> row list \<Rightarrow> draw list" where
  "whiteouts all_prices doc j rs =
     map (\<lambda>(r, it). DrawRect (bbox it) white white True) (edited_on all_prices doc j rs)"

definition insertions :: "item list \<Rightarrow> bool \<Rightarrow> document \<Rightarrow> nat \<Rightarrow> row list \<Rightarrow> draw list" where
  "insertions all_prices font_file doc j rs =
     concat (map (\<lambda>(r, it).
                    case apply_markup (New_Text r) (prefix it) (currency it) (Finite 1) of
                      Inl e \<Rightarrow> []
                    | Inr display_text \<Rightarrow> insert_ops it display_text font_file)
               (edited_on all_prices doc j rs))"

text \<open>
  An occurrence whose box starts to the left of its baseline origin, edited; and two
  occurrences of one span, which share the span's box, the first edited and the second
  left as it is.
\<close>

definition occ_c :: item where
  "occ_c = \<lparr>page = 1, original_text = [49, 50, 8364], prefix = [], val = [49, 50],
     currency = [8364], bbox = (10, 20, 60, 32), origin = (12, 30), font_size = 11,
     color = 0\<rparr>"

definition rows_c :: "row list" where
  "rows_c = [\<lparr>ID = 0, Page = 1, Original_Text = [49, 50, 8364], New_Text = [78, 47, 65]\<rparr>]"

definition occ_d :: item where
  "occ_d = \<lparr>page = 1, original_text = [49, 50, 8364], prefix = [], val = [49, 50],
     currency = [8364], bbox = (10, 20, 90, 32), origin = (10, 30), font_size = 11,
     color = 0\<rparr>"

definition occ_e :: item where
  "occ_e = \<lparr>page = 1, original_text = [55, 8364], prefix = [], val = [55],
     currency = [8364], bbox = (10, 20, 90, 32), origin = (10, 30), font_size = 11,
     color = 0\<rparr>"

definition rows_de :: "row list" where
  "rows_de =
     [\<lparr>ID = 0, Page = 1, Original_Text = [49, 50, 8364], New_Text = [78, 47, 65]\<rparr>,
      \<lparr>ID = 1, Page = 1, Original_Text = [55, 8364], New_Text = [55, 8364]\<rparr>]"

text \<open>
  The font calls of one insertion, the font it names, and the text pass 2 shows for a
  row.
\<close>

definition font_ops :: "bool \<Rightarrow> draw list" where
  "font_ops font_file = (if font_file then [InsertFont ''dejavu''] else [])"

definition font_used :: "bool \<Rightarrow> string" where
  "font_used font_file = (if font_file then ''dejavu'' else ''helv'')"

definition shown_text :: "row \<Rightarrow> item \<Rightarrow> ustr" where
  "shown_text r it =
     (case apply_markup (New_Text r) (prefix it) (currency it) (Finite 1) of
        Inl e \<Rightarrow> [] | Inr t \<Rightarrow> t)"

text \<open>
  The parts of the value pattern: what follows the first one to three digits of the
  grouped branch, and that branch.
\<close>

definition tail_rx :: rx where
  "tail_rx = Seq (Star sep_group) (NegLA (Cls is_digit))"

definition branch1 :: rx where
  "branch1 = Seq (Rep1to3 (Cls is_digit)) tail_rx"

text \<open>A text that starts with a separator and three digits; a text that starts with a digit.\<close>

fun sep3 :: "ustr \<Rightarrow> bool" where
  "sep3 (a # b # c # d # r) = (is_sep a \<and> is_digit b \<and> is_digit c \<and> is_digit d)"
| "sep3 _ = False"

fun starts_digit :: "ustr \<Rightarrow> bool" where
  "starts_digit [] = False"
| "starts_digit (c # s) = is_digit c"

text \<open>
  The match of the value pattern, computed directly. After the leading digits the
  grouped branch takes the groups of a separator and three digits for as long as the
  group is not followed by a digit. A run of one to three digits is matched by the
  grouped branch, with the groups that follow it; a longer run is matched whole by the
  second branch.
\<close>

fun tail_take :: "ustr \<Rightarrow> nat" where
  "tail_take (a # b # c # d # r) =
     (if is_sep a \<and> is_digit b \<and> is_digit c \<and> is_digit d \<and> \<not> starts_digit r
      then 4 + tail_take r else 0)"
| "tail_take _ = 0"

definition val_take :: "ustr \<Rightarrow> nat" where
  "val_take s =
     (let k = length (takeWhile is_digit s)
      in if k \<le> 3 then k + tail_take (drop k s) else k)"

text \<open>The search: the text before the first digit, and the match that starts there.\<close>

definition val_search :: "ustr \<Rightarrow> (ustr \<times> rmatch) option" where
  "val_search s =
     (let pre = takeWhile (\<lambda>c. \<not> is_digit c) s; s' = dropWhile (\<lambda>c. \<not> is_digit c) s
      in if s' = [] then None
         else Some (pre, take (val_take s') s', [], drop (val_take s') s'))"



definition markup_10 :: double where
  "markup_10 = float_literal (11 / 10)"




section \<open>Texts without a digit\<close>

lemma ms_val_nondigit: "\<not> is_digit c \<Longrightarrow> ms val_rx (c # s) = []"
  by (simp add: val_rx_def Rep1to3_def Plus_def Opt_def)

lemma ms_val_Nil: "ms val_rx [] = []"
  by (simp add: val_rx_def Rep1to3_def Plus_def Opt_def)

lemma search_val_no_digit: "list_all (\<lambda>c. \<not> is_digit c) s \<Longrightarrow> re_search val_rx s = None"
  by (induction s) (simp_all add: ms_val_Nil ms_val_nondigit)

lemma apply_markup_no_match: "re_search val_rx s = None \<Longrightarrow> apply_markup s p c m = Inr s"
  by (simp add: apply_markup_def)

lemma not_digit_letters:
  "\<not> is_digit 78" "\<not> is_digit 47" "\<not> is_digit 65" "\<not> is_digit 84" "\<not> is_digit 66"
  "\<not> is_digit 68"
  by (simp_all add: is_digit_def decimal_def dec_starts_def)

lemma apply_markup_NA: "apply_markup [78, 47, 65] p c m = Inr [78, 47, 65]"
  by (rule apply_markup_no_match, rule search_val_no_digit) (simp add: not_digit_letters)

lemma apply_markup_TBD: "apply_markup [84, 66, 68] p c m = Inr [84, 66, 68]"
  by (rule apply_markup_no_match, rule search_val_no_digit) (simp add: not_digit_letters)


section \<open>Pages and drawing\<close>

lemma get_page_length: "length doc' = length doc \<Longrightarrow> get_page doc' i = get_page doc i"
  by (simp add: get_page_def)

lemma get_page_bound: "get_page doc i = Inr k \<Longrightarrow> k < length doc"
  by (auto simp: get_page_def Let_def nat_less_iff split: if_splits)

lemma draw_on_length [simp]: "length (draw_on doc k ops) = length doc"
  by (simp add: draw_on_def)

lemma draw_on_nth:
  "j < length doc \<Longrightarrow> draw_on doc k ops ! j = (if j = k then doc ! j @ ops else doc ! j)"
  by (simp add: draw_on_def nth_list_update)

text \<open>What each pass adds to a page.\<close>

lemma edited_on_length:
  assumes "length doc1 = length doc"
  shows "edited_on A doc1 j rs = edited_on A doc j rs"
proof -
  from assms have "get_page doc1 = get_page doc" by (intro ext) (simp add: get_page_def)
  then show ?thesis by (simp add: edited_on_def cong: sum.case_cong if_cong)
qed

lemma whiteouts_length:
  "length doc1 = length doc \<Longrightarrow> whiteouts A doc1 j rs = whiteouts A doc j rs"
  by (simp add: whiteouts_def edited_on_length [of doc1 doc])

lemma insertions_length:
  "length doc1 = length doc \<Longrightarrow> insertions A ff doc1 j rs = insertions A ff doc j rs"
  by (simp add: insertions_def edited_on_length [of doc1 doc])

lemma edited_on_Cons:
  "edited_on A doc j (r # rs) =
     (case item_at A (ID r) of
        Inl e \<Rightarrow> []
      | Inr it \<Rightarrow> if New_Text r \<noteq> original_text it \<and> get_page doc (int (page it) - 1) = Inr j
                  then [(r, it)] else []) @ edited_on A doc j rs"
  by (simp add: edited_on_def)

lemma whiteout_pass_exact:
  "whiteout_pass A rs doc = Inr doc' \<Longrightarrow>
     length doc' = length doc \<and> (\<forall>j<length doc. doc' ! j = doc ! j @ whiteouts A doc j rs)"
proof (induction rs arbitrary: doc)
  case Nil
  then show ?case by (simp add: whiteouts_def edited_on_def)
next
  case (Cons r rs)
  from Cons.prems obtain it where it: "item_at A (ID r) = Inr it"
    by (auto split: sum.splits)
  show ?case
  proof (cases "New_Text r = original_text it")
    case True
    with Cons.prems it have "whiteout_pass A rs doc = Inr doc'" by simp
    from Cons.IH [OF this] it True show ?thesis
      by (simp add: whiteouts_def edited_on_Cons)
  next
    case False
    with Cons.prems it obtain k where k: "get_page doc (int (page it) - 1) = Inr k"
      and rest: "whiteout_pass A rs (draw_on doc k [DrawRect (bbox it) white white True]) = Inr doc'"
      by (auto split: sum.splits)
    let ?d = "DrawRect (bbox it) white white True"
    let ?doc1 = "draw_on doc k [?d]"
    have l1: "length ?doc1 = length doc" by simp
    from Cons.IH [OF rest] have len: "length doc' = length doc"
      and ih: "\<forall>j<length doc. doc' ! j = ?doc1 ! j @ whiteouts A doc j rs"
      by (simp_all add: whiteouts_length [OF l1])
    have "doc' ! j = doc ! j @ whiteouts A doc j (r # rs)" if j: "j < length doc" for j
    proof -
      from ih j have "doc' ! j = ?doc1 ! j @ whiteouts A doc j rs" by blast
      with j it False k show ?thesis
        by (simp add: draw_on_nth whiteouts_def edited_on_Cons)
    qed
    with len show ?thesis by blast
  qed
qed

lemma insert_pass_exact:
  "insert_pass A rs ff doc = Inr doc' \<Longrightarrow>
     length doc' = length doc \<and> (\<forall>j<length doc. doc' ! j = doc ! j @ insertions A ff doc j rs)"
proof (induction rs arbitrary: doc)
  case Nil
  then show ?case by (simp add: insertions_def edited_on_def)
next
  case (Cons r rs)
  from Cons.prems obtain it where it: "item_at A (ID r) = Inr it"
    by (auto split: sum.splits)
  show ?case
  proof (cases "New_Text r = original_text it")
    case True
    with Cons.prems it have "insert_pass A rs ff doc = Inr doc'" by simp
    from Cons.IH [OF this] it True show ?thesis
      by (simp add: insertions_def edited_on_Cons)
  next
    case False
    with Cons.prems it obtain k t where k: "get_page doc (int (page it) - 1) = Inr k"
      and t: "apply_markup (New_Text r) (prefix it) (currency it) (Finite 1) = Inr t"
      and rest: "insert_pass A rs ff (draw_on doc k (insert_ops it t ff)) = Inr doc'"
      by (auto split: sum.splits)
    let ?doc1 = "draw_on doc k (insert_ops it t ff)"
    have l1: "length ?doc1 = length doc" by simp
    from Cons.IH [OF rest] have len: "length doc' = length doc"
      and ih: "\<forall>j<length doc. doc' ! j = ?doc1 ! j @ insertions A ff doc j rs"
      by (simp_all add: insertions_length [OF l1])
    have "doc' ! j = doc ! j @ insertions A ff doc j (r # rs)" if j: "j < length doc" for j
    proof -
      from ih j have "doc' ! j = ?doc1 ! j @ insertions A ff doc j rs" by blast
      with j it False k t show ?thesis
        by (simp add: draw_on_nth insertions_def edited_on_Cons)
    qed
    with len show ?thesis by blast
  qed
qed

lemma whiteouts_are_whiteouts: "list_all is_whiteout (whiteouts A doc j rs)"
  by (simp add: whiteouts_def list_all_iff is_whiteout_def case_prod_unfold)

lemma insert_ops_not_whiteout: "list_all (\<lambda>d. \<not> is_whiteout d) (insert_ops it t ff)"
  by (simp add: insert_ops_def is_whiteout_def Let_def)

lemma insertions_not_whiteouts: "list_all (\<lambda>d. \<not> is_whiteout d) (insertions A ff doc j rs)"
proof -
  have "list_all (\<lambda>d. \<not> is_whiteout d) (concat (map (\<lambda>(r, it).
           case apply_markup (New_Text r) (prefix it) (currency it) (Finite 1) of
             Inl e \<Rightarrow> [] | Inr display_text \<Rightarrow> insert_ops it display_text ff) xs))" for xs
    by (induction xs) (auto simp: insert_ops_not_whiteout split: sum.splits)
  then show ?thesis by (simp add: insertions_def)
qed

lemma generate_ab:
  "generate [occ_a, occ_b] rows_ab True [[]] =
     Inr [[DrawRect (10, 20, 60, 32) white white True, DrawRect (50, 20, 90, 32) white white True,
           InsertFont ''dejavu'', InsertText (10, 30) [78, 47, 65] 11 ''dejavu'' 0,
           InsertFont ''dejavu'', InsertText (50, 30) [84, 66, 68] 11 ''dejavu'' 0]]"
  by (simp add: generate_def rows_ab_def occ_a_def occ_b_def item_at_def get_page_def draw_on_def
      insert_ops_def apply_markup_NA apply_markup_TBD)

lemma edited_on_ab:
  "edited_on [occ_a, occ_b] [[]] 0 rows_ab = [(rows_ab ! 0, occ_a), (rows_ab ! 1, occ_b)]"
  by (simp add: edited_on_def rows_ab_def occ_a_def occ_b_def item_at_def get_page_def)

lemma whiteouts_ab:
  "whiteouts [occ_a, occ_b] [[]] 0 rows_ab =
     [DrawRect (10, 20, 60, 32) white white True, DrawRect (50, 20, 90, 32) white white True]"
  by (simp add: whiteouts_def edited_on_ab) (simp add: occ_a_def occ_b_def)

lemma insertions_ab:
  "insertions [occ_a, occ_b] True [[]] 0 rows_ab =
     [InsertFont ''dejavu'', InsertText (10, 30) [78, 47, 65] 11 ''dejavu'' 0,
      InsertFont ''dejavu'', InsertText (50, 30) [84, 66, 68] 11 ''dejavu'' 0]"
  by (simp add: insertions_def edited_on_ab)
     (simp add: rows_ab_def occ_a_def occ_b_def insert_ops_def apply_markup_NA apply_markup_TBD)


section \<open>The order of the two passes\<close>

text \<open>
  Claim C2. The generation phase is two full passes over the edited rows, in this order.
  Whenever it completes, pass 1 has completed on the copy before pass 2 starts, and the
  document it leaves holds, on every page, the previous content followed by the whiteout
  of every edited row of that page. The final document holds, on every page, the previous
  content, then the whiteout of every edited row of that page in the order of the rows,
  then the insertion of every edited row of that page in the order of the rows: no
  whiteout comes after an insertion, so no replacement text is painted over, also when
  the boxes of two edited occurrences overlap.
\<close>

theorem two_pass_order:
  "generate A rs ff doc = Inr doc' \<Longrightarrow>
     (\<exists>doc1. whiteout_pass A rs doc = Inr doc1 \<and> insert_pass A rs ff doc1 = Inr doc' \<and>
        length doc1 = length doc \<and>
        (\<forall>j<length doc. doc1 ! j = doc ! j @ whiteouts A doc j rs)) \<and>
     length doc' = length doc \<and>
     (\<forall>j<length doc. doc' ! j = doc ! j @ whiteouts A doc j rs @ insertions A ff doc j rs \<and>
        list_all is_whiteout (whiteouts A doc j rs) \<and>
        list_all (\<lambda>d. \<not> is_whiteout d) (insertions A ff doc j rs))"
proof -
  assume g: "generate A rs ff doc = Inr doc'"
  then obtain doc1 where w: "whiteout_pass A rs doc = Inr doc1"
    and i: "insert_pass A rs ff doc1 = Inr doc'"
    by (auto simp: generate_def split: sum.splits)
  note W = whiteout_pass_exact [OF w] and I = insert_pass_exact [OF i]
  from W have l1: "length doc1 = length doc" by (rule conjunct1)
  from I l1 have l2: "length doc' = length doc" by simp
  have "doc' ! j = doc ! j @ whiteouts A doc j rs @ insertions A ff doc j rs"
    if j: "j < length doc" for j
  proof -
    from W j have "doc1 ! j = doc ! j @ whiteouts A doc j rs" by blast
    moreover from I j l1 have "doc' ! j = doc1 ! j @ insertions A ff doc1 j rs" by simp
    ultimately show ?thesis by (simp add: insertions_length [OF l1])
  qed
  then have P: "\<forall>j<length doc. doc' ! j = doc ! j @ whiteouts A doc j rs @ insertions A ff doc j rs \<and>
        list_all is_whiteout (whiteouts A doc j rs) \<and>
        list_all (\<lambda>d. \<not> is_whiteout d) (insertions A ff doc j rs)"
    by (simp add: whiteouts_are_whiteouts insertions_not_whiteouts)
  from w i W have E: "\<exists>doc1. whiteout_pass A rs doc = Inr doc1 \<and> insert_pass A rs ff doc1 = Inr doc' \<and>
        length doc1 = length doc \<and>
        (\<forall>j<length doc. doc1 ! j = doc ! j @ whiteouts A doc j rs)"
    by (intro exI [of _ doc1]) simp
  from E l2 P show ?thesis by (intro conjI)
qed

text \<open>
  The two overlapping occurrences, both edited: the page receives the two whiteouts and
  then the two texts.
\<close>

theorem two_pass_order_witness:
  "generate [occ_a, occ_b] rows_ab True [[]] =
     Inr [[DrawRect (10, 20, 60, 32) white white True, DrawRect (50, 20, 90, 32) white white True,
           InsertFont ''dejavu'', InsertText (10, 30) [78, 47, 65] 11 ''dejavu'' 0,
           InsertFont ''dejavu'', InsertText (50, 30) [84, 66, 68] 11 ''dejavu'' 0]] \<and>
   whiteouts [occ_a, occ_b] [[]] 0 rows_ab =
     [DrawRect (10, 20, 60, 32) white white True, DrawRect (50, 20, 90, 32) white white True] \<and>
   insertions [occ_a, occ_b] True [[]] 0 rows_ab =
     [InsertFont ''dejavu'', InsertText (10, 30) [78, 47, 65] 11 ''dejavu'' 0,
      InsertFont ''dejavu'', InsertText (50, 30) [84, 66, 68] 11 ''dejavu'' 0]"
  using two_pass_order [OF generate_ab] by (simp add: generate_ab whiteouts_ab insertions_ab)


section \<open>Where the replacement text is drawn\<close>

lemma insert_pass_markup:
  "insert_pass A rs ff doc = Inr doc' \<Longrightarrow>
     list_all (\<lambda>(r, it). \<exists>t. apply_markup (New_Text r) (prefix it) (currency it) (Finite 1) = Inr t)
       (edited_on A doc j rs)"
proof (induction rs arbitrary: doc)
  case Nil
  then show ?case by (simp add: edited_on_def)
next
  case (Cons r rs)
  from Cons.prems obtain it where it: "item_at A (ID r) = Inr it"
    by (auto split: sum.splits)
  show ?case
  proof (cases "New_Text r = original_text it")
    case True
    with Cons.prems it have "insert_pass A rs ff doc = Inr doc'" by simp
    from Cons.IH [OF this] it True show ?thesis by (simp add: edited_on_Cons)
  next
    case False
    with Cons.prems it obtain k t where k: "get_page doc (int (page it) - 1) = Inr k"
      and t: "apply_markup (New_Text r) (prefix it) (currency it) (Finite 1) = Inr t"
      and rest: "insert_pass A rs ff (draw_on doc k (insert_ops it t ff)) = Inr doc'"
      by (auto split: sum.splits)
    have l1: "length (draw_on doc k (insert_ops it t ff)) = length doc" by simp
    from Cons.IH [OF rest] it False k t show ?thesis
      by (simp add: edited_on_Cons edited_on_length [OF l1])
  qed
qed

lemma insertions_alt:
  assumes "list_all (\<lambda>(r, it). \<exists>t. apply_markup (New_Text r) (prefix it) (currency it) (Finite 1) = Inr t)
       (edited_on A doc j rs)"
  shows "insertions A ff doc j rs =
     concat (map (\<lambda>(r, it). font_ops ff @
         [InsertText (fst (bbox it), snd (origin it)) (shown_text r it) (font_size it)
            (font_used ff) 0]) (edited_on A doc j rs))"
proof -
  have "list_all (\<lambda>(r, it). \<exists>t. apply_markup (New_Text r) (prefix it) (currency it) (Finite 1) = Inr t) xs \<Longrightarrow>
     concat (map (\<lambda>(r, it).
                    case apply_markup (New_Text r) (prefix it) (currency it) (Finite 1) of
                      Inl e \<Rightarrow> []
                    | Inr display_text \<Rightarrow> insert_ops it display_text ff) xs) =
     concat (map (\<lambda>(r, it). font_ops ff @
         [InsertText (fst (bbox it), snd (origin it)) (shown_text r it) (font_size it)
            (font_used ff) 0]) xs)" for xs
    by (induction xs) (auto simp: insert_ops_def font_ops_def font_used_def shown_text_def)
  from this [OF assms] show ?thesis by (simp add: insertions_def)
qed

lemma generate_c:
  "generate [occ_c] rows_c False [[]] =
     Inr [[DrawRect (10, 20, 60, 32) white white True, InsertText (10, 30) [78, 47, 65] 11 ''helv'' 0]]"
  by (simp add: generate_def rows_c_def occ_c_def item_at_def get_page_def draw_on_def
      insert_ops_def apply_markup_NA)

lemma edited_on_c: "edited_on [occ_c] [[]] 0 rows_c = [(rows_c ! 0, occ_c)]"
  by (simp add: edited_on_def rows_c_def occ_c_def item_at_def get_page_def)

text \<open>
  Claim C4. Whenever the generation phase completes, what it adds to a page is the
  whiteouts and then, for every edited row of the page in order, the font call (when the
  font file loads) and one text insertion. The insertion shows the text
  \<open>apply_markup\<close> returns for the row, at the point whose x is the left edge
  \<open>x0\<close> of the occurrence's box and whose y is the y of the occurrence's
  baseline origin, in the occurrence's font size and in colour 0 (black). The x of the
  origin is not used.
\<close>

theorem insert_anchor:
  "generate A rs ff doc = Inr doc' \<Longrightarrow> j < length doc \<Longrightarrow>
     list_all (\<lambda>(r, it). apply_markup (New_Text r) (prefix it) (currency it) (Finite 1)
                          = Inr (shown_text r it)) (edited_on A doc j rs) \<and>
     doc' ! j = doc ! j @ whiteouts A doc j rs @
       concat (map (\<lambda>(r, it). font_ops ff @
         [InsertText (fst (bbox it), snd (origin it)) (shown_text r it) (font_size it)
            (font_used ff) 0]) (edited_on A doc j rs))"
proof -
  assume g: "generate A rs ff doc = Inr doc'" and j: "j < length doc"
  then obtain doc1 where w: "whiteout_pass A rs doc = Inr doc1"
    and i: "insert_pass A rs ff doc1 = Inr doc'"
    by (auto simp: generate_def split: sum.splits)
  note W = whiteout_pass_exact [OF w] and I = insert_pass_exact [OF i]
  from W have l1: "length doc1 = length doc" by (rule conjunct1)
  from insert_pass_markup [OF i, of j] have
    M: "list_all (\<lambda>(r, it). \<exists>t. apply_markup (New_Text r) (prefix it) (currency it) (Finite 1) = Inr t)
       (edited_on A doc j rs)"
    by (simp add: edited_on_length [OF l1])
  from W j have "doc1 ! j = doc ! j @ whiteouts A doc j rs" by blast
  moreover from I j l1 have "doc' ! j = doc1 ! j @ insertions A ff doc1 j rs" by simp
  ultimately have "doc' ! j = doc ! j @ whiteouts A doc j rs @ insertions A ff doc j rs"
    by (simp add: insertions_length [OF l1])
  then have D: "doc' ! j = doc ! j @ whiteouts A doc j rs @
       concat (map (\<lambda>(r, it). font_ops ff @
         [InsertText (fst (bbox it), snd (origin it)) (shown_text r it) (font_size it)
            (font_used ff) 0]) (edited_on A doc j rs))"
    by (simp add: insertions_alt [OF M])
  from M have "list_all (\<lambda>(r, it). apply_markup (New_Text r) (prefix it) (currency it) (Finite 1)
                          = Inr (shown_text r it)) (edited_on A doc j rs)"
    by (auto simp: list_all_iff shown_text_def)
  with D show ?thesis by (intro conjI)
qed

theorem insert_anchor_witness:
  "generate [occ_c] rows_c False [[]] =
     Inr [[DrawRect (10, 20, 60, 32) white white True, InsertText (10, 30) [78, 47, 65] 11 ''helv'' 0]] \<and>
   [DrawRect (10, 20, 60, 32) white white True, InsertText (10, 30) [78, 47, 65] 11 ''helv'' 0] =
     whiteouts [occ_c] [[]] 0 rows_c @
       [InsertText (fst (bbox occ_c), snd (origin occ_c)) (shown_text (rows_c ! 0) occ_c)
          (font_size occ_c) ''helv'' 0]"
  using insert_anchor [OF generate_c, of 0]
  by (simp add: generate_c edited_on_c font_ops_def font_used_def)

text \<open>
  The insertion is not at the origin when the box starts elsewhere: the occurrence has
  its origin at x = 12 and its box from x = 10, and the text is drawn at x = 10.
\<close>

theorem insert_at_origin_counterexample:
  "generate [occ_c] rows_c False [[]] =
     Inr [[DrawRect (10, 20, 60, 32) white white True, InsertText (10, 30) [78, 47, 65] 11 ''helv'' 0]] \<and>
   origin occ_c = (12, 30) \<and>
   InsertText (origin occ_c) [78, 47, 65] (font_size occ_c) ''helv'' 0 \<notin>
     set [DrawRect (10, 20, 60, 32) white white True, InsertText (10, 30) [78, 47, 65] 11 ''helv'' 0]"
  by (simp add: generate_c) (simp add: occ_c_def)


section \<open>Rows left unchanged\<close>

lemma whiteout_pass_skip:
  "item_at A (ID r) = Inr it \<Longrightarrow> New_Text r = original_text it \<Longrightarrow>
     whiteout_pass A (rs1 @ r # rs2) doc = whiteout_pass A (rs1 @ rs2) doc"
  by (induction rs1 arbitrary: doc) (simp_all split: sum.splits)

lemma insert_pass_skip:
  "item_at A (ID r) = Inr it \<Longrightarrow> New_Text r = original_text it \<Longrightarrow>
     insert_pass A (rs1 @ r # rs2) ff doc = insert_pass A (rs1 @ rs2) ff doc"
  by (induction rs1 arbitrary: doc) (simp_all split: sum.splits)

lemma edited_on_append:
  "edited_on A doc j (rs1 @ rs2) = edited_on A doc j rs1 @ edited_on A doc j rs2"
  by (simp add: edited_on_def)

lemma generate_de:
  "generate [occ_d, occ_e] rows_de False [[]] =
     Inr [[DrawRect (10, 20, 90, 32) white white True, InsertText (10, 30) [78, 47, 65] 11 ''helv'' 0]]"
  by (simp add: generate_def rows_de_def occ_d_def occ_e_def item_at_def get_page_def draw_on_def
      insert_ops_def apply_markup_NA)

text \<open>
  Claim C5. A row whose new text equals the original text of its occurrence contributes
  nothing: the generation phase gives the same result, document or exception, as it
  gives for the table without that row, and the row is not among the rows that take
  effect on any page. (The box of the occurrence is not protected from the whiteout of
  another edited occurrence, as the example after the theorem shows.)
\<close>

theorem unchanged_row_no_directive:
  "item_at A (ID r) = Inr it \<Longrightarrow> New_Text r = original_text it \<Longrightarrow>
     generate A (rs1 @ r # rs2) ff doc = generate A (rs1 @ rs2) ff doc \<and>
     edited_on A doc j (rs1 @ r # rs2) = edited_on A doc j (rs1 @ rs2)"
proof -
  assume a: "item_at A (ID r) = Inr it" "New_Text r = original_text it"
  have "generate A (rs1 @ r # rs2) ff doc = generate A (rs1 @ rs2) ff doc"
    by (simp add: generate_def whiteout_pass_skip [OF a] insert_pass_skip [OF a]
        split: sum.splits)
  moreover from a have "edited_on A doc j (rs1 @ r # rs2) = edited_on A doc j (rs1 @ rs2)"
    by (simp add: edited_on_append edited_on_Cons)
  ultimately show ?thesis by (intro conjI)
qed

theorem unchanged_row_no_directive_witness:
  "item_at [occ_d, occ_e] (ID (rows_de ! 1)) = Inr occ_e \<and>
   New_Text (rows_de ! 1) = original_text occ_e \<and>
   generate [occ_d, occ_e] rows_de False [[]] = generate [occ_d, occ_e] [rows_de ! 0] False [[]]"
  using unchanged_row_no_directive [of "[occ_d, occ_e]" "rows_de ! 1" occ_e "[rows_de ! 0]" "[]" False "[[]]" 0]
  by (simp add: rows_de_def occ_e_def item_at_def)

text \<open>
  Two occurrences of one span share the span's box. When the first is edited and the
  second is not, the whiteout of the first covers the box of the second, whose text is
  not drawn again.
\<close>

theorem region_untouched_counterexample:
  "New_Text (rows_de ! 1) = original_text occ_e \<and>
   item_at [occ_d, occ_e] (ID (rows_de ! 1)) = Inr occ_e \<and>
   generate [occ_d, occ_e] rows_de False [[]] =
     Inr [[DrawRect (bbox occ_e) white white True,
           InsertText (10, 30) [78, 47, 65] 11 ''helv'' 0]]"
  by (simp add: generate_de) (simp add: rows_de_def occ_e_def item_at_def)


section \<open>The match of the value pattern\<close>

declare ms.simps(6) [simp del]

lemma sep_not_digit: "is_sep c \<Longrightarrow> \<not> is_digit c"
proof -
  assume "is_sep c"
  then consider "c = 46" | "c = 32" by (auto simp: is_sep_def)
  then show ?thesis by cases (simp_all add: is_digit_def decimal_def dec_starts_def)
qed

lemma ms_Star_Nil: "ms (Star a) [] = [([], [], [])]"
  by (subst ms.simps(6)) (cases "ms a []"; auto)

lemma val_rx_alt: "val_rx = Alt (Seq (Rep1to3 (Cls is_digit)) tail_rx) (Plus (Cls is_digit))"
  by (simp add: val_rx_def tail_rx_def)

lemma ms_Star_Cls:
  "ms (Star (Cls P)) (c # s) =
     (if P c then map (\<lambda>(m, g, r). (c # m, g, r)) (ms (Star (Cls P)) s) else []) @ [([], [], c # s)]"
  by (subst ms.simps(6)) (simp add: case_prod_unfold)

lemma ms_Star_Cls_head:
  "list_all P ds \<Longrightarrow> rest = [] \<or> \<not> P (hd rest) \<Longrightarrow>
     \<exists>t. ms (Star (Cls P)) (ds @ rest) = (ds, [], rest) # t"
proof (induction ds)
  case Nil
  then show ?case by (cases rest) (simp_all add: ms_Star_Nil ms_Star_Cls)
next
  case (Cons d ds)
  then obtain t where "ms (Star (Cls P)) (ds @ rest) = (ds, [], rest) # t" by auto
  with Cons.prems show ?case by (simp add: ms_Star_Cls)
qed

lemma ms_Plus_head:
  "list_all P ds \<Longrightarrow> ds \<noteq> [] \<Longrightarrow> rest = [] \<or> \<not> P (hd rest) \<Longrightarrow>
     \<exists>t. ms (Plus (Cls P)) (ds @ rest) = (ds, [], rest) # t"
proof (cases ds)
  case Nil
  assume "ds \<noteq> []" with Nil show ?thesis by simp
next
  case (Cons d ds')
  assume a: "list_all P ds" "rest = [] \<or> \<not> P (hd rest)"
  with Cons have "list_all P ds'" "P d" by simp_all
  from ms_Star_Cls_head [OF this(1) a(2)] obtain t where
    "ms (Star (Cls P)) (ds' @ rest) = (ds', [], rest) # t" by blast
  with Cons \<open>P d\<close> show ?thesis by (simp add: Plus_def)
qed

lemma ms_sep_group:
  "ms sep_group s = (if sep3 s then [(take 4 s, [], drop 4 s)] else [])"
proof (cases s)
  case Nil then show ?thesis by (simp add: sep_group_def Rep3_def)
next
  case s1: (Cons a s1)
  show ?thesis
  proof (cases s1)
    case Nil with s1 show ?thesis by (simp add: sep_group_def Rep3_def)
  next
    case s2: (Cons b s2)
    show ?thesis
    proof (cases s2)
      case Nil with s1 s2 show ?thesis by (simp add: sep_group_def Rep3_def)
    next
      case s3: (Cons c s3)
      show ?thesis
      proof (cases s3)
        case Nil with s1 s2 s3 show ?thesis by (simp add: sep_group_def Rep3_def)
      next
        case (Cons d s4)
        with s1 s2 s3 show ?thesis by (simp add: sep_group_def Rep3_def)
      qed
    qed
  qed
qed

lemma ms_Star_sep_no: "\<not> sep3 s \<Longrightarrow> ms (Star sep_group) s = [([], [], s)]"
  by (subst ms.simps(6)) (simp add: ms_sep_group)

lemma sep3_length: "sep3 s \<Longrightarrow> 4 \<le> length s"
  by (induction s rule: sep3.induct) simp_all

lemma ms_Star_sep_yes:
  assumes "sep3 s"
  shows "ms (Star sep_group) s =
      map (\<lambda>(m, g, r). (take 4 s @ m, g, r)) (ms (Star sep_group) (drop 4 s)) @ [([], [], s)]"
proof -
  from assms have "length s - 4 < length s" using sep3_length [of s] by simp
  with assms show ?thesis
    by (subst ms.simps(6)) (simp add: ms_sep_group case_prod_unfold)
qed

lemma sep3_not_digit: "sep3 s \<Longrightarrow> ms (NegLA (Cls is_digit)) s = [([], [], s)]"
  by (induction s rule: sep3.induct) (simp_all add: sep_not_digit)

lemma ms_tail_no:
  "\<not> sep3 s \<Longrightarrow> ms tail_rx s = (if s \<noteq> [] \<and> is_digit (hd s) then [] else [([], [], s)])"
  by (cases s) (simp_all add: tail_rx_def ms_Star_sep_no)

lemma ms_Seq_shift:
  assumes "ms a s = map (\<lambda>(m, g, r). (p @ m, g, r)) X @ Y"
  shows "ms (Seq a b) s =
     map (\<lambda>(m, g, r). (p @ m, g, r))
       (concat (map (\<lambda>(m1, g1, r1). map (\<lambda>(m2, g2, r2). (m1 @ m2, g1 @ g2, r2)) (ms b r1)) X))
     @ concat (map (\<lambda>(m1, g1, r1). map (\<lambda>(m2, g2, r2). (m1 @ m2, g1 @ g2, r2)) (ms b r1)) Y)"
  unfolding ms.simps(4) assms
  by (simp add: map_concat comp_def case_prod_unfold)

lemma ms_tail_yes:
  assumes "sep3 s"
  shows "ms tail_rx s =
      map (\<lambda>(m, g, r). (take 4 s @ m, g, r)) (ms tail_rx (drop 4 s)) @ [([], [], s)]"
proof -
  have "ms tail_rx s =
     map (\<lambda>(m, g, r). (take 4 s @ m, g, r))
       (concat (map (\<lambda>(m1, g1, r1). map (\<lambda>(m2, g2, r2). (m1 @ m2, g1 @ g2, r2))
           (ms (NegLA (Cls is_digit)) r1)) (ms (Star sep_group) (drop 4 s))))
     @ concat (map (\<lambda>(m1, g1, r1). map (\<lambda>(m2, g2, r2). (m1 @ m2, g1 @ g2, r2))
           (ms (NegLA (Cls is_digit)) r1)) [([], [], s)])"
    unfolding tail_rx_def by (rule ms_Seq_shift) (rule ms_Star_sep_yes [OF assms])
  also have "concat (map (\<lambda>(m1, g1, r1). map (\<lambda>(m2, g2, r2). (m1 @ m2, g1 @ g2, r2))
           (ms (NegLA (Cls is_digit)) r1)) (ms (Star sep_group) (drop 4 s))) = ms tail_rx (drop 4 s)"
    unfolding tail_rx_def ms.simps(4) ..
  also have "concat (map (\<lambda>(m1, g1, r1). map (\<lambda>(m2, g2, r2). (m1 @ m2, g1 @ g2, r2))
           (ms (NegLA (Cls is_digit)) r1)) [([], [], s)]) = [([], [], s)]"
    using sep3_not_digit [OF assms] by simp
  finally show ?thesis .
qed

lemma sep3_starts_digit: "sep3 s \<Longrightarrow> \<not> starts_digit s"
  by (induction s rule: sep3.induct) (simp_all add: sep_not_digit)

lemma digit_not_sep3: "is_digit d \<Longrightarrow> \<not> sep3 (d # r)"
  using sep3_starts_digit [of "d # r"] by auto

lemma ms_tail_digit: "is_digit d \<Longrightarrow> ms tail_rx (d # r) = []"
  by (simp add: ms_tail_no digit_not_sep3)

lemma ms_tail_nonempty: "\<not> starts_digit s \<Longrightarrow> ms tail_rx s \<noteq> []"
proof (cases "sep3 s")
  case True
  from ms_tail_yes [OF True] show ?thesis by simp
next
  case False
  assume "\<not> starts_digit s"
  with ms_tail_no [OF False] show ?thesis by (cases s) simp_all
qed

lemma ms_digit_Nil: "ms (Cls is_digit) s = (if starts_digit s then [([hd s], [], tl s)] else [])"
  by (cases s) simp_all

lemma ms_Rep1to3:
  "ms (Rep1to3 (Cls P)) s =
     (case s of
        [] \<Rightarrow> []
      | a # r \<Rightarrow> if \<not> P a then [] else
          (case r of
             [] \<Rightarrow> [([a], [], [])]
           | b # r' \<Rightarrow> if \<not> P b then [([a], [], r)] else
               (case r' of
                  [] \<Rightarrow> [([a, b], [], []), ([a], [], r)]
                | c # r'' \<Rightarrow> if \<not> P c then [([a, b], [], r'), ([a], [], r)]
                             else [([a, b, c], [], r''), ([a, b], [], r'), ([a], [], r)])))"
  by (simp add: Rep1to3_def Opt_def split: list.splits)

lemma val_rx_branches: "val_rx = Alt branch1 (Plus (Cls is_digit))"
  by (simp add: val_rx_alt branch1_def)

lemma ms_branch1:
  "ms branch1 s =
     (case s of
        [] \<Rightarrow> []
      | a # r \<Rightarrow> if \<not> is_digit a then [] else
          (case r of
             [] \<Rightarrow> map (\<lambda>(m, g, t). ([a] @ m, g, t)) (ms tail_rx [])
           | b # r' \<Rightarrow> if \<not> is_digit b then map (\<lambda>(m, g, t). ([a] @ m, g, t)) (ms tail_rx r) else
               (case r' of
                  [] \<Rightarrow> map (\<lambda>(m, g, t). ([a, b] @ m, g, t)) (ms tail_rx [])
                | c # r'' \<Rightarrow>
                    if \<not> is_digit c then map (\<lambda>(m, g, t). ([a, b] @ m, g, t)) (ms tail_rx r')
                    else if starts_digit r'' then []
                    else map (\<lambda>(m, g, t). ([a, b, c] @ m, g, t)) (ms tail_rx r''))))"
  unfolding branch1_def ms.simps(4) ms_Rep1to3
  by (cases s rule: sep3.cases)
     (auto simp: ms_tail_digit case_prod_unfold split: list.splits)

lemma take_drop_4:
  "take (4 + k) (a # b # c # d # r) = a # b # c # d # take k r"
  "drop (4 + k) (a # b # c # d # r) = drop k r"
  by (simp_all add: eval_nat_numeral)

lemma tail_take_head:
  "\<not> starts_digit s \<Longrightarrow>
     \<exists>t. ms tail_rx s = (take (tail_take s) s, [], drop (tail_take s) s) # t"
proof (induction s rule: tail_take.induct)
  case (1 a b c d r)
  let ?s = "a # b # c # d # r"
  show ?case
  proof (cases "sep3 ?s")
    case True
    note y = ms_tail_yes [OF True]
    show ?thesis
    proof (cases "starts_digit r")
      case sd: True
      then obtain x r' where "r = x # r'" "is_digit x" by (cases r) auto
      then have "ms tail_rx r = []" by (simp add: ms_tail_digit)
      with y sd show ?thesis by simp
    next
      case nd: False
      with True 1 obtain t where "ms tail_rx r = (take (tail_take r) r, [], drop (tail_take r) r) # t"
        by auto
      with y True nd show ?thesis by (simp add: take_drop_4)
    qed
  next
    case False
    with 1 ms_tail_no [OF False] show ?thesis by auto
  qed
qed (simp_all add: ms_tail_no)

lemma re_search_skip:
  "list_all (\<lambda>c. \<not> is_digit c) pre \<Longrightarrow> ms val_rx s = x # t \<Longrightarrow>
     re_search val_rx (pre @ s) = Some (pre, x)"
proof (induction pre)
  case Nil
  then show ?case by (cases s) simp_all
next
  case (Cons c pre)
  then show ?case by (simp add: ms_val_nondigit)
qed

lemma ms_val_split: "ms val_rx s = ms branch1 s @ ms (Plus (Cls is_digit)) s"
  by (simp add: val_rx_branches)

lemma not_starts_digit: "\<not> starts_digit r \<longleftrightarrow> r = [] \<or> \<not> is_digit (hd r)"
  by (cases r) simp_all

lemma val_head_long:
  assumes "list_all is_digit ds" "4 \<le> length ds" "\<not> starts_digit rest"
  shows "\<exists>t. ms val_rx (ds @ rest) = (ds, [], rest) # t"
proof -
  from assms(2) obtain a b c d ds' where ds: "ds = a # b # c # d # ds'"
    by (cases ds rule: sep3.cases) auto
  with assms(1) have "ms branch1 (ds @ rest) = []" by (simp add: ms_branch1)
  moreover from assms ds have "\<exists>t. ms (Plus (Cls is_digit)) (ds @ rest) = (ds, [], rest) # t"
    by (intro ms_Plus_head) (simp_all add: not_starts_digit)
  ultimately show ?thesis by (simp add: ms_val_split)
qed

lemma branch1_short:
  assumes "list_all is_digit ds" "ds \<noteq> []" "length ds \<le> 3" "\<not> starts_digit rest"
  shows "ms branch1 (ds @ rest) = map (\<lambda>(m, g, t). (ds @ m, g, t)) (ms tail_rx rest)"
proof -
  from assms(2,3) consider a where "ds = [a]" | a b where "ds = [a, b]"
    | a b c where "ds = [a, b, c]"
    by (cases ds rule: sep3.cases) auto
  then show ?thesis
    using assms(1,4) by cases (auto simp: ms_branch1 split: list.splits)
qed

lemma val_head_short:
  assumes "list_all is_digit ds" "ds \<noteq> []" "length ds \<le> 3" "\<not> starts_digit rest"
  shows "\<exists>t. ms val_rx (ds @ rest) =
           (ds @ take (tail_take rest) rest, [], drop (tail_take rest) rest) # t"
proof -
  from tail_take_head [OF assms(4)] obtain t where
    "ms tail_rx rest = (take (tail_take rest) rest, [], drop (tail_take rest) rest) # t" by blast
  then show ?thesis by (simp add: ms_val_split branch1_short [OF assms])
qed

lemma takeWhile_run:
  "list_all P ds \<Longrightarrow> rest = [] \<or> \<not> P (hd rest) \<Longrightarrow>
     takeWhile P (ds @ rest) = ds \<and> dropWhile P (ds @ rest) = rest"
proof (induction ds)
  case Nil
  then show ?case by (cases rest) auto
next
  case (Cons d ds)
  then show ?case by auto
qed

lemma val_take_head:
  assumes "starts_digit s"
  shows "\<exists>t. ms val_rx s = (take (val_take s) s, [], drop (val_take s) s) # t"
proof -
  define ds where "ds = takeWhile is_digit s"
  define rest where "rest = dropWhile is_digit s"
  have s: "s = ds @ rest" by (simp add: ds_def rest_def)
  have d: "list_all is_digit ds" by (simp add: ds_def list_all_iff) (meson set_takeWhileD)
  have r: "\<not> starts_digit rest"
    unfolding rest_def not_starts_digit using hd_dropWhile [of is_digit s] by blast
  from assms have ne: "ds \<noteq> []" by (cases s) (simp_all add: ds_def)
  show ?thesis
  proof (cases "length ds \<le> 3")
    case True
    from val_head_short [OF d ne True r] True show ?thesis
      unfolding val_take_def Let_def ds_def [symmetric] by (simp add: s)
  next
    case False
    then have "4 \<le> length ds" by simp
    from val_head_long [OF d this r] False show ?thesis
      unfolding val_take_def Let_def ds_def [symmetric] by (simp add: s)
  qed
qed

lemma re_search_val: "re_search val_rx s = val_search s"
proof -
  define pre where "pre = takeWhile (\<lambda>c. \<not> is_digit c) s"
  define s' where "s' = dropWhile (\<lambda>c. \<not> is_digit c) s"
  have s: "s = pre @ s'" by (simp add: pre_def s'_def)
  have p: "list_all (\<lambda>c. \<not> is_digit c) pre"
    unfolding pre_def list_all_iff using set_takeWhileD [of _ "\<lambda>c. \<not> is_digit c" s] by blast
  show ?thesis
  proof (cases "s' = []")
    case True
    with s p have "re_search val_rx s = None" by (simp add: search_val_no_digit)
    with True show ?thesis
      unfolding val_search_def Let_def s'_def [symmetric] by simp
  next
    case False
    then have "starts_digit s'"
      using hd_dropWhile [of "\<lambda>c. \<not> is_digit c" s] by (cases s') (auto simp: s'_def)
    from val_take_head [OF this] obtain t where
      "ms val_rx s' = (take (val_take s') s', [], drop (val_take s') s') # t" by blast
    from re_search_skip [OF p this] False show ?thesis
      unfolding val_search_def Let_def s'_def [symmetric] pre_def [symmetric] by (simp add: s [symmetric])
  qed
qed


lemma not_digit_low: "c < 48 \<Longrightarrow> \<not> is_digit c"
  by (simp add: is_digit_def decimal_def dec_starts_def)

lemma sep32: "is_sep 32" by (simp add: is_sep_def)


section \<open>Rounding to a float\<close>

lemma bitlen_rat:
  assumes "0 < x"
  shows "2 powi (bitlen x - 1) \<le> (of_int x :: rat)" "(of_int x :: rat) < 2 powi (bitlen x)"
proof -
  from assms have b1: "1 \<le> bitlen x"
    using bitlen_nonneg [of x] bitlen_eq_zero_iff [of x] by linarith
  from bitlen_bounds [OF assms] have lo: "2 ^ nat (bitlen x - 1) \<le> x" and hi: "x < 2 ^ nat (bitlen x)"
    by simp_all
  from lo have "(of_int (2 ^ nat (bitlen x - 1)) :: rat) \<le> of_int x" by (simp only: of_int_le_iff)
  with b1 show "2 powi (bitlen x - 1) \<le> (of_int x :: rat)" by (simp add: power_int_nonneg_exp)
  from hi have "(of_int x :: rat) < of_int (2 ^ nat (bitlen x))" by (simp only: of_int_less_iff)
  with b1 show "(of_int x :: rat) < 2 powi (bitlen x)" by (simp add: power_int_nonneg_exp)
qed

lemma ilog2_bounds:
  assumes "0 < q"
  shows "2 powi (ilog2 q) \<le> q \<and> q < 2 powi (ilog2 q + 1)"
proof -
  obtain a b where ab: "quotient_of q = (a, b)" by (cases "quotient_of q")
  then have b: "0 < b" and q: "q = of_int a / of_int b"
    using quotient_of_denom_pos [of q a b] quotient_of_div [of q a b] by simp_all
  from assms q b have a: "0 < a" by (simp add: zero_less_divide_iff)
  define d where "d = bitlen a - bitlen b"
  have two: "(0::rat) < 2 powi k" for k by simp
  have "2 powi (bitlen a - 1) / 2 powi (bitlen b) < (of_int a :: rat) / of_int b"
    using bitlen_rat [OF a] bitlen_rat [OF b] b by (intro frac_less2) (simp_all add: two)
  also have "2 powi (bitlen a - 1) / 2 powi (bitlen b) = (2::rat) powi (d - 1)"
    by (simp add: d_def power_int_diff [symmetric] algebra_simps)
  finally have lo: "2 powi (d - 1) < q" by (simp add: q)
  have "(of_int a :: rat) / of_int b < 2 powi (bitlen a) / 2 powi (bitlen b - 1)"
    using bitlen_rat [OF a] bitlen_rat [OF b] a by (intro frac_less) (simp_all add: two)
  also have "2 powi (bitlen a) / 2 powi (bitlen b - 1) = (2::rat) powi (d + 1)"
    by (simp add: d_def power_int_diff [symmetric] algebra_simps)
  finally have hi: "q < 2 powi (d + 1)" by (simp add: q)
  have i: "ilog2 q = (if 2 powi d \<le> q then d else d - 1)"
    by (simp add: ilog2_def ab d_def Let_def)
  show ?thesis
  proof (cases "2 powi d \<le> q")
    case True
    with hi i show ?thesis by simp
  next
    case False
    with lo i show ?thesis by simp
  qed
qed

lemma ilog2_unique:
  assumes "0 < q" "2 powi e \<le> q" "q < 2 powi (e + 1)"
  shows "ilog2 q = e"
proof -
  from ilog2_bounds [OF assms(1)] have lo: "2 powi (ilog2 q) \<le> q" and hi: "q < 2 powi (ilog2 q + 1)"
    by simp_all
  have "ilog2 q < e + 1"
  proof (rule ccontr)
    assume "\<not> ilog2 q < e + 1"
    then have "(2::rat) powi (e + 1) \<le> 2 powi (ilog2 q)" by (intro power_int_increasing) simp_all
    with lo assms(3) show False by simp
  qed
  moreover have "e < ilog2 q + 1"
  proof (rule ccontr)
    assume "\<not> e < ilog2 q + 1"
    then have "(2::rat) powi (ilog2 q + 1) \<le> 2 powi e" by (intro power_int_increasing) simp_all
    with hi assms(2) show False by simp
  qed
  ultimately show ?thesis by simp
qed

lemma rhe_of_int: "round_half_even (of_int k) = k"
  by (simp add: round_half_even_def)

lemma rhe_near:
  assumes "\<bar>q - of_int k\<bar> < 1 / 2"
  shows "round_half_even q = k"
proof (cases "of_int k \<le> q")
  case True
  with assms have f: "\<lfloor>q\<rfloor> = k" by (intro floor_unique) linarith+
  with assms True show ?thesis by (simp add: round_half_even_def Let_def)
next
  case False
  from assms False have b: "of_int k - 1 / 2 < q" "q < of_int k" by linarith+
  then have f: "\<lfloor>q\<rfloor> = k - 1" by (intro floor_unique) simp_all
  from b have "1 / 2 < q - of_int (k - 1)" by simp
  with f show ?thesis by (simp add: round_half_even_def Let_def)
qed

lemma rhe_ge: "of_int k \<le> q \<Longrightarrow> k \<le> round_half_even q"
proof -
  assume "of_int k \<le> q"
  then have "k \<le> \<lfloor>q\<rfloor>" by (simp add: le_floor_iff)
  then show ?thesis by (simp add: round_half_even_def Let_def)
qed

lemma rhe_le: "q \<le> of_int k \<Longrightarrow> round_half_even q \<le> k"
proof (cases "q = of_int k")
  case True
  then show ?thesis by (simp add: rhe_of_int)
next
  case False
  assume "q \<le> of_int k"
  with False have "q < of_int k" by simp
  then have "\<lfloor>q\<rfloor> < k" by (simp add: floor_less_iff)
  then show ?thesis by (simp add: round_half_even_def Let_def)
qed

lemma round_double_pos:
  assumes "0 < q" "2 powi e \<le> q" "q < 2 powi (e + 1)" "- 1022 \<le> e"
  shows "round_double q =
     (if (2::rat) ^ 1024 \<le> of_int (round_half_even (q / 2 powi (e - 52))) * 2 powi (e - 52) then PInf
      else Finite (of_int (round_half_even (q / 2 powi (e - 52))) * 2 powi (e - 52)))"
proof -
  from ilog2_unique [OF assms(1-3)] assms(1,4) have e: "max (ilog2 \<bar>q\<bar>) (- 1022) = e" by simp
  have "(0::rat) \<le> q / 2 powi (e - 52)" using assms(1) by simp
  then have "0 \<le> round_half_even (q / 2 powi (e - 52))" by (intro rhe_ge) simp
  then have "(0::rat) \<le> of_int (round_half_even (q / 2 powi (e - 52))) * 2 powi (e - 52)"
    by simp
  then have "\<bar>of_int (round_half_even (q / 2 powi (e - 52))) * 2 powi (e - 52)\<bar> =
       (of_int (round_half_even (q / 2 powi (e - 52))) * 2 powi (e - 52) :: rat)"
    by (rule abs_of_nonneg)
  with assms(1) show ?thesis
    unfolding round_double_def Let_def e by simp
qed

lemma round_double_overflow:
  assumes "2 ^ 1024 \<le> q"
  shows "round_double q = PInf"
proof -
  have p: "(0::rat) < 2 ^ 1024" by simp
  with assms have q: "0 < q" by linarith
  define e where "e = ilog2 q"
  from ilog2_bounds [OF q] have lo: "2 powi e \<le> q" and hi: "q < 2 powi (e + 1)"
    by (simp_all add: e_def)
  have e: "1024 \<le> e"
  proof (rule ccontr)
    assume "\<not> 1024 \<le> e"
    then have "(2::rat) powi (e + 1) \<le> 2 powi 1024" by (intro power_int_increasing) simp_all
    with hi assms show False by simp
  qed
  have "(2::rat) powi 52 = 2 powi e / 2 powi (e - 52)"
    by (simp add: power_int_diff [symmetric])
  also have "\<dots> \<le> q / 2 powi (e - 52)" using lo by (simp add: divide_right_mono)
  finally have "of_int (2 ^ 52) \<le> q / 2 powi (e - 52)" by simp
  then have "2 ^ 52 \<le> round_half_even (q / 2 powi (e - 52))" by (rule rhe_ge)
  then have "(of_int (2 ^ 52) :: rat) \<le> of_int (round_half_even (q / 2 powi (e - 52)))"
    by (simp only: of_int_le_iff)
  then have "(2::rat) powi 52 * 2 powi (e - 52)
      \<le> of_int (round_half_even (q / 2 powi (e - 52))) * 2 powi (e - 52)"
    by (intro mult_right_mono) simp_all
  also have "(2::rat) powi 52 * 2 powi (e - 52) = 2 powi e"
  proof -
    have "(2::rat) powi (52 + (e - 52)) = 2 powi 52 * 2 powi (e - 52)"
      by (rule power_int_add) simp
    moreover have "52 + (e - 52) = e" by simp
    ultimately show ?thesis by (simp only:)
  qed
  finally have "(2::rat) powi e \<le> of_int (round_half_even (q / 2 powi (e - 52))) * 2 powi (e - 52)" .
  moreover from e have "(2::rat) powi 1024 \<le> 2 powi e" by (intro power_int_increasing) simp_all
  ultimately have "(2::rat) ^ 1024 \<le> of_int (round_half_even (q / 2 powi (e - 52))) * 2 powi (e - 52)"
    by simp
  with round_double_pos [OF q lo hi] e show ?thesis by simp
qed

lemma float_literal_105: "float_literal (105 / 100) = Finite (4728779608739021 / 2 ^ 52)"
  unfolding float_literal_def
  by (subst round_double_pos [where e = 0]) (simp_all add: rhe_near [where k = 4728779608739021])

lemma float_literal_110: "float_literal (11 / 10) = Finite (4953959590107546 / 2 ^ 52)"
  unfolding float_literal_def
  by (subst round_double_pos [where e = 0]) (simp_all add: rhe_near [where k = 4953959590107546])

lemma round_double_exact:
  assumes "n < 2 ^ 53"
  shows "round_double (of_nat n) = Finite (of_nat n)"
proof (cases "n = 0")
  case True
  then show ?thesis by (simp add: round_double_def)
next
  case False
  define q :: rat where "q = of_nat n"
  from False have q: "0 < q" "1 \<le> q" by (simp_all add: q_def)
  from assms have q53: "q < 2 ^ 53" unfolding q_def by (metis of_nat_less_iff of_nat_numeral of_nat_power)
  define e where "e = ilog2 q"
  from ilog2_bounds [OF q(1)] have lo: "2 powi e \<le> q" and hi: "q < 2 powi (e + 1)"
    by (simp_all add: e_def)
  have e0: "0 \<le> e"
  proof (rule ccontr)
    assume "\<not> 0 \<le> e"
    then have "(2::rat) powi (e + 1) \<le> 2 powi 0" by (intro power_int_increasing) simp_all
    with hi q(2) show False by simp
  qed
  have e52: "e \<le> 52"
  proof (rule ccontr)
    assume "\<not> e \<le> 52"
    then have "(2::rat) powi 53 \<le> 2 powi e" by (intro power_int_increasing) simp_all
    with lo q53 show False by simp
  qed
  define j where "j = nat (52 - e)"
  from e52 have u: "(2::rat) powi (e - 52) = 1 / 2 ^ j"
    by (simp add: j_def power_int_def field_simps)
  have "q / 2 powi (e - 52) = of_int (int n * 2 ^ j)" by (simp add: u q_def)
  then have r: "round_half_even (q / 2 powi (e - 52)) = int n * 2 ^ j" by (simp only: rhe_of_int)
  have v: "of_int (round_half_even (q / 2 powi (e - 52))) * 2 powi (e - 52) = q"
    unfolding r by (simp add: u q_def)
  have "(2::rat) ^ 53 \<le> 2 ^ 1024" by (intro power_increasing) simp_all
  with q53 have "\<not> (2::rat) ^ 1024 \<le> q" by linarith
  with round_double_pos [OF q(1) lo hi] e0 v show ?thesis
    by (simp add: q_def)
qed


lemma scale_35000: "py_round (fmul (round_double 35000) (float_literal (105 / 100))) = Inr 36750"
proof -
  have a: "round_double 35000 = Finite 35000"
    using round_double_exact [of 35000] by simp
  have b: "round_double (35000 * (4728779608739021 / 2 ^ 52)) = Finite 36750"
    by (subst round_double_pos [where e = 15]) (simp_all add: rhe_near [where k = 5050881540096000])
  have c: "fmul (Finite 35000) (Finite (4728779608739021 / 2 ^ 52)) = Finite 36750"
    unfolding fmul.simps by (rule b)
  show ?thesis unfolding a float_literal_105 c by (simp add: rhe_of_int [of 36750, simplified])
qed

lemma scale_12: "py_round (fmul (round_double 12) (float_literal (11 / 10))) = Inr 13"
proof -
  have a: "round_double 12 = Finite 12"
    using round_double_exact [of 12] by simp
  have b: "round_double (12 * (4953959590107546 / 2 ^ 52)) = Finite (7430939385161319 / 2 ^ 49)"
    by (subst round_double_pos [where e = 3]) (simp_all add: rhe_near [where k = 7430939385161319])
  have c: "fmul (Finite 12) (Finite (4953959590107546 / 2 ^ 52)) = Finite (7430939385161319 / 2 ^ 49)"
    unfolding fmul.simps by (rule b)
  show ?thesis unfolding a float_literal_110 c by (simp add: rhe_near [where k = 13])
qed


section \<open>The number \<open>apply_markup\<close> reads\<close>













end
